theory Spec2Isabelle
  imports Main
begin

section \<open>The browser client of Connect4Rust: \<^verbatim>\<open>web/src/main.ts\<close>\<close>

text \<open>
  The client keeps a 6-row by 7-column grid, a move-history string, the search depth
  chosen on a slider and a busy flag; a click drops a blue piece, asks \<^verbatim>\<open>/api/move\<close>
  for the answer and drops the red piece the server names.

  JavaScript numbers that the client uses as indices are modelled as \<open>int\<close>: every
  index the client computes itself is an integer, and for the one number that comes from
  outside (\<^verbatim>\<open>body.column\<close>) any value that is not an integer in range reads
  \<^verbatim>\<open>undefined\<close> from the row array exactly as an out-of-range integer does.
  Canvas drawing and the floating-point bounce animation write none of the modelled
  fields and are left out.
\<close>

subsection \<open>Constants and types\<close>

definition WIDTH :: int where
  "WIDTH = 7"

definition HEIGHT :: int where
  "HEIGHT = 6"

text \<open>\<^verbatim>\<open>type CellState = 0 | 1 | 2\<close>: 0 = empty, 1 = human (blue), 2 = AI (red).\<close>

datatype CellState = Empty | Blue | Red

text \<open>\<^verbatim>\<open>board: CellState[][]\<close>, indexed \<^verbatim>\<open>board[row][col]\<close>, row 0 at the bottom.\<close>

type_synonym Board = "CellState list list"

definition emptyBoard :: Board where
  "emptyBoard = replicate (nat HEIGHT) (replicate (nat WIDTH) Empty)"

definition wf_board :: "Board \<Rightarrow> bool" where
  "wf_board b = (length b = nat HEIGHT \<and> list_all (\<lambda>r. length r = nat WIDTH) b)"

text \<open>
  The read \<^verbatim>\<open>state.board[row][col]\<close>. A column index outside the row array reads
  \<^verbatim>\<open>undefined\<close>, here \<open>None\<close>. Every call site keeps \<open>row\<close> inside \<open>[0, HEIGHT)\<close>,
  and the board always has \<open>HEIGHT\<close> rows, so the row array itself always exists; a
  missing row is \<open>None\<close> as well.
\<close>

definition cellAt :: "Board \<Rightarrow> int \<Rightarrow> int \<Rightarrow> CellState option" where
  "cellAt b row col =
     (if 0 \<le> row \<and> row < int (length b) then
        (if 0 \<le> col \<and> col < int (length (b ! nat row))
         then Some (b ! nat row ! nat col) else None)
      else None)"

text \<open>The write \<^verbatim>\<open>state.board[row][col] = player\<close>.\<close>

definition setCell :: "Board \<Rightarrow> int \<Rightarrow> int \<Rightarrow> CellState \<Rightarrow> Board" where
  "setCell b row col player = b[nat row := (b ! nat row)[nat col := player]]"

subsection \<open>\<^verbatim>\<open>dropPiece\<close>\<close>

text \<open>
  \<^verbatim>\<open>for (let row = 0; row < HEIGHT; row++) {
    if (state.board[row][col] === 0) { state.board[row][col] = player; return row; }
  }
  return -1;\<close>
  The function returns the board it leaves behind together with its result.
\<close>

function dropPiece_from :: "CellState \<Rightarrow> int \<Rightarrow> int \<Rightarrow> Board \<Rightarrow> Board \<times> int" where
  "dropPiece_from player col row b =
     (if row < HEIGHT then
        (if cellAt b row col = Some Empty then (setCell b row col player, row)
         else dropPiece_from player col (row + 1) b)
      else (b, - 1))"
  by pat_completeness auto
termination
  by (relation "measure (\<lambda>(player, col, row, b). nat (HEIGHT - row))") auto

declare dropPiece_from.simps [simp del]

definition dropPiece :: "CellState \<Rightarrow> int \<Rightarrow> Board \<Rightarrow> Board \<times> int" where
  "dropPiece player col b = dropPiece_from player col 0 b"

subsection \<open>The move-history string\<close>

text \<open>
  The template literal \<^verbatim>\<open>`${code}${col}`\<close> prints the number \<open>col\<close> in decimal, with a
  leading minus sign when it is negative.
\<close>

definition digitChar :: "nat \<Rightarrow> char" where
  "digitChar n = ''0123456789'' ! n"

fun natToString :: "nat \<Rightarrow> string" where
  "natToString n =
     (if n < 10 then [digitChar n] else natToString (n div 10) @ [digitChar (n mod 10)])"

declare natToString.simps [simp del]

definition numToString :: "int \<Rightarrow> string" where
  "numToString i = (if i < 0 then CHR ''-'' # natToString (nat (- i)) else natToString (nat i))"

text \<open>\<^verbatim>\<open>const code = player === 1 ? "B" : "R"\<close>\<close>

definition playerCode :: "CellState \<Rightarrow> string" where
  "playerCode player = (if player = Blue then ''B'' else ''R'')"

definition historyToken :: "CellState \<Rightarrow> int \<Rightarrow> string" where
  "historyToken player col = playerCode player @ numToString col"

subsection \<open>\<^verbatim>\<open>collectLine\<close> and \<^verbatim>\<open>findWinningLine\<close>\<close>

text \<open>
  \<^verbatim>\<open>for (let i = 0; i < 4; i++) {
    const c = col + dc * i; const r = row + dr * i;
    if (c < 0 || c >= WIDTH || r < 0 || r >= HEIGHT) return null;
    if (state.board[r][c] !== player) return null;
    cells.push({ col: c, row: r });
  }
  return cells.length === 4 ? cells : null;\<close>
  A cell \<^verbatim>\<open>{ col, row }\<close> is the pair \<open>(col, row)\<close>.
\<close>

function collectLine_from ::
  "CellState \<Rightarrow> int \<Rightarrow> int \<Rightarrow> int \<Rightarrow> int \<Rightarrow> int \<Rightarrow> (int \<times> int) list \<Rightarrow> Board
     \<Rightarrow> (int \<times> int) list option" where
  "collectLine_from player col row dc dr i cells b =
     (if i < 4 then
        (let c = col + dc * i; r = row + dr * i in
         if c < 0 \<or> c \<ge> WIDTH \<or> r < 0 \<or> r \<ge> HEIGHT then None
         else if cellAt b r c \<noteq> Some player then None
         else collectLine_from player col row dc dr (i + 1) (cells @ [(c, r)]) b)
      else (if length cells = 4 then Some cells else None))"
  by pat_completeness auto
termination
  by (relation "measure (\<lambda>(player, col, row, dc, dr, i, cells, b). nat (4 - i))") auto

declare collectLine_from.simps [simp del]

definition collectLine ::
  "CellState \<Rightarrow> int \<Rightarrow> int \<Rightarrow> int \<Rightarrow> int \<Rightarrow> Board \<Rightarrow> (int \<times> int) list option" where
  "collectLine player col row dc dr b = collectLine_from player col row dc dr 0 [] b"

text \<open>\<^verbatim>\<open>interface WinningLine { player: CellState; cells: Array<{ col; row }> }\<close>\<close>

datatype WinningLine = WinningLine (wl_player: CellState) (wl_cells: "(int \<times> int) list")

text \<open>The direction table of \<^verbatim>\<open>findWinningLine\<close>, as \<open>(dc, dr)\<close>, in the order it is tried.\<close>

definition dirs :: "(int \<times> int) list" where
  "dirs = [(1, 0), (0, 1), (1, 1), (1, - 1)]"

fun findWinningLine_dirs ::
  "CellState \<Rightarrow> int \<Rightarrow> int \<Rightarrow> (int \<times> int) list \<Rightarrow> Board \<Rightarrow> WinningLine option" where
  "findWinningLine_dirs player c r [] b = None"
| "findWinningLine_dirs player c r ((dc, dr) # ds) b =
     (case collectLine player c r dc dr b of
        Some cells \<Rightarrow> Some (WinningLine player cells)
      | None \<Rightarrow> findWinningLine_dirs player c r ds b)"

function findWinningLine_rows :: "CellState \<Rightarrow> int \<Rightarrow> int \<Rightarrow> Board \<Rightarrow> WinningLine option" where
  "findWinningLine_rows player c r b =
     (if r < HEIGHT then
        (case findWinningLine_dirs player c r dirs b of
           Some l \<Rightarrow> Some l
         | None \<Rightarrow> findWinningLine_rows player c (r + 1) b)
      else None)"
  by pat_completeness auto
termination
  by (relation "measure (\<lambda>(player, c, r, b). nat (HEIGHT - r))") auto

declare findWinningLine_rows.simps [simp del]

function findWinningLine_cols :: "CellState \<Rightarrow> int \<Rightarrow> Board \<Rightarrow> WinningLine option" where
  "findWinningLine_cols player c b =
     (if c < WIDTH then
        (case findWinningLine_rows player c 0 b of
           Some l \<Rightarrow> Some l
         | None \<Rightarrow> findWinningLine_cols player (c + 1) b)
      else None)"
  by pat_completeness auto
termination
  by (relation "measure (\<lambda>(player, c, b). nat (WIDTH - c))") auto

declare findWinningLine_cols.simps [simp del]

definition findWinningLine :: "CellState \<Rightarrow> Board \<Rightarrow> WinningLine option" where
  "findWinningLine player b = findWinningLine_cols player 0 b"

subsection \<open>The state of the page\<close>

text \<open>
  \<^verbatim>\<open>interface GameState { board; history; level; busy }\<close>, then what the page shows of it
  (the status line, the trace and outcome texts, the module variable \<^verbatim>\<open>winLine\<close>), then
  the part of the event loop that the handlers leave behind: every \<^verbatim>\<open>handleMove\<close> call
  that is suspended at one of its \<^verbatim>\<open>await\<close>s, and every request issued so far.
\<close>

record GameState =
  board :: Board
  history :: string
  level :: int
  busy :: bool

record Page = GameState +
  status :: string
  traceValue :: string
  outcomeValue :: string
  winLine :: "WinningLine option"

text \<open>
  The query of \<^verbatim>\<open>`/api/move?position=${encodeURIComponent(state.history)}&level=${state.level}`\<close>.
  The history holds letters and digits only, which \<^verbatim>\<open>encodeURIComponent\<close> leaves as
  they are.
\<close>

record Request =
  position :: string
  levelParam :: int

text \<open>
  Where a suspended \<^verbatim>\<open>handleMove\<close> waits: for the blue piece to settle (the first
  \<^verbatim>\<open>await waitForAnimations()\<close>), for the answer of \<^verbatim>\<open>fetch\<close> inside \<^verbatim>\<open>aiMove\<close>, or for
  the red piece to settle (the second \<^verbatim>\<open>await waitForAnimations()\<close>).
\<close>

datatype Task = AwaitHumanDrop | AwaitReply | AwaitAiDrop

record App = Page +
  tasks :: "Task list"
  requests :: "Request list"

definition init :: App where
  "init = \<lparr> board = emptyBoard, history = [], level = 7, busy = False,
            status = ''You are Blue. Choose a column.'', traceValue = ''(empty)'',
            outcomeValue = ''In play'', winLine = None, tasks = [], requests = [] \<rparr>"

subsection \<open>\<^verbatim>\<open>describeOutcome\<close>, \<^verbatim>\<open>updateInfo\<close>, \<^verbatim>\<open>appendHistory\<close>, \<^verbatim>\<open>resetGame\<close>\<close>

definition describeOutcome :: "App \<Rightarrow> string" where
  "describeOutcome s =
     (let humanWin = (findWinningLine Blue (board s) \<noteq> None);
          aiWin = (findWinningLine Red (board s) \<noteq> None)
      in if humanWin \<and> aiWin then ''Conflict state''
         else if humanWin then ''You win!''
         else if aiWin then ''AI wins!''
         else if busy s then ''AI thinking...''
         else ''AI done. Your turn.'')"

text \<open>\<^verbatim>\<open>winLine = findWinningLine(1) ?? findWinningLine(2)\<close>\<close>

definition updateInfo :: "App \<Rightarrow> App" where
  "updateInfo s =
     (let s1 = s\<lparr> traceValue := (if length (history s) = 0 then ''(empty)'' else history s) \<rparr>;
          s2 = s1\<lparr> winLine := (case findWinningLine Blue (board s1) of
                                  Some l \<Rightarrow> Some l
                                | None \<Rightarrow> findWinningLine Red (board s1)) \<rparr>
      in s2\<lparr> outcomeValue := describeOutcome s2 \<rparr>)"

definition appendHistory :: "CellState \<Rightarrow> int \<Rightarrow> App \<Rightarrow> App" where
  "appendHistory player col s = updateInfo (s\<lparr> history := history s @ historyToken player col \<rparr>)"

definition resetGame :: "App \<Rightarrow> App" where
  "resetGame s =
     updateInfo (s\<lparr> board := emptyBoard, history := [], busy := False, winLine := None,
                   status := ''You are Blue. Choose a column.'' \<rparr>)"

subsection \<open>\<^verbatim>\<open>aiMove\<close> and \<^verbatim>\<open>handleMove\<close>, cut at their \<^verbatim>\<open>await\<close>s\<close>

text \<open>
  What comes back from the network: \<^verbatim>\<open>fetch\<close> or \<^verbatim>\<open>res.json()\<close> rejects with a message,
  the status is not ok and \<^verbatim>\<open>res.text()\<close> is the message, or the body carries a column.
\<close>

datatype Response = Rejected string | HttpError string | Success int

text \<open>\<^verbatim>\<open>aiMove\<close> up to \<^verbatim>\<open>await fetch(url, ...)\<close>: the request leaves with the current history and level.\<close>

definition aiMove_request :: "App \<Rightarrow> App" where
  "aiMove_request s =
     s\<lparr> requests := requests s @ [\<lparr> position = history s, levelParam = level s \<rparr>] \<rparr>"

text \<open>
  \<^verbatim>\<open>aiMove\<close> from the answer on. Between the answer and \<^verbatim>\<open>await res.json()\<close> (or
  \<^verbatim>\<open>await res.text()\<close>) the function touches no state, so both resumptions are one step.
  The \<^verbatim>\<open>catch\<close> block only writes the status line.
\<close>

definition apiError :: "string \<Rightarrow> App \<Rightarrow> App" where
  "apiError msg s = s\<lparr> status := ''API error: '' @ msg \<rparr>"

definition aiMove_response :: "Response \<Rightarrow> App \<Rightarrow> App" where
  "aiMove_response resp s =
     (case resp of
        Rejected msg \<Rightarrow> apiError msg s
      | HttpError msg \<Rightarrow> apiError msg s
      | Success column \<Rightarrow>
          (case dropPiece Red column (board s) of (b', row) \<Rightarrow>
             if row = - 1 then apiError ''AI attempted an illegal column'' (s\<lparr> board := b' \<rparr>)
             else appendHistory Red column (s\<lparr> board := b' \<rparr>)))"

text \<open>\<^verbatim>\<open>handleMove\<close> up to the first \<^verbatim>\<open>await\<close>; \<open>True\<close> when the call goes on to wait.\<close>

definition handleMove_start :: "int \<Rightarrow> App \<Rightarrow> App \<times> bool" where
  "handleMove_start col s =
     (if busy s then (s, False)
      else (let s1 = s\<lparr> busy := True \<rparr> in
            case dropPiece Blue col (board s1) of (b', row) \<Rightarrow>
              if row = - 1 then (s1\<lparr> board := b', busy := False \<rparr>, False)
              else (appendHistory Blue col (s1\<lparr> board := b' \<rparr>), True)))"

text \<open>From the first \<^verbatim>\<open>await\<close> to the \<^verbatim>\<open>fetch\<close> inside \<^verbatim>\<open>aiMove\<close>.\<close>

definition handleMove_thinking :: "App \<Rightarrow> App" where
  "handleMove_thinking s = aiMove_request (s\<lparr> status := ''AI (Red) thinking...'' \<rparr>)"

text \<open>After the second \<^verbatim>\<open>await waitForAnimations()\<close>.\<close>

definition handleMove_finish :: "App \<Rightarrow> App" where
  "handleMove_finish s = updateInfo (s\<lparr> busy := False, status := ''AI done. Your turn.'' \<rparr>)"

subsection \<open>Events\<close>

text \<open>
  What can happen to the page: a click on the button of column \<open>col\<close> (the listener
  computes \<open>col\<close> with \<^verbatim>\<open>Math.floor\<close> and drops it unless \<open>0 \<le> col < WIDTH\<close>), an input
  event of the depth slider with its value, a click on Reset, and the resumption of the
  suspended \<^verbatim>\<open>handleMove\<close> number \<open>i\<close>: its animation wait ends, or its request is
  answered. An event that names no such task changes nothing. The waits on the animation
  may end at any time here, which allows every order the browser can produce.
\<close>

datatype Event =
    Click int
  | LevelInput int
  | ResetClick
  | AnimationsSettled nat
  | Reply nat Response

definition removeAt :: "nat \<Rightarrow> 'a list \<Rightarrow> 'a list" where
  "removeAt i xs = take i xs @ drop (Suc i) xs"

fun fire :: "Event \<Rightarrow> App \<Rightarrow> App" where
  "fire (Click col) s =
     (if col < 0 \<or> col \<ge> WIDTH then s
      else (case handleMove_start col s of (s', waits) \<Rightarrow>
              if waits then s'\<lparr> tasks := tasks s' @ [AwaitHumanDrop] \<rparr> else s'))"
| "fire (LevelInput v) s = s\<lparr> level := v \<rparr>"
| "fire ResetClick s = resetGame s"
| "fire (AnimationsSettled i) s =
     (if i < length (tasks s) then
        (case tasks s ! i of
           AwaitHumanDrop \<Rightarrow> (handleMove_thinking s)\<lparr> tasks := (tasks s)[i := AwaitReply] \<rparr>
         | AwaitReply \<Rightarrow> s
         | AwaitAiDrop \<Rightarrow> (handleMove_finish s)\<lparr> tasks := removeAt i (tasks s) \<rparr>)
      else s)"
| "fire (Reply i resp) s =
     (if i < length (tasks s) \<and> tasks s ! i = AwaitReply
      then (aiMove_response resp s)\<lparr> tasks := (tasks s)[i := AwaitAiDrop] \<rparr>
      else s)"

fun run :: "Event list \<Rightarrow> App \<Rightarrow> App" where
  "run [] s = s"
| "run (e # es) s = run es (fire e s)"

text \<open>
  The slider is declared \<^verbatim>\<open><input id="level" type="range" min="1" max="15" value="7" />\<close>;
  the browser keeps the value of a range input inside its declared bounds, so an input
  event carries an integer from 1 to 15.
\<close>

fun sliderEvent :: "Event \<Rightarrow> bool" where
  "sliderEvent (LevelInput v) = (1 \<le> v \<and> v \<le> 15)"
| "sliderEvent e = True"

subsection \<open>Vocabulary of the properties\<close>

text \<open>
  Four cells in a row: starting at column \<open>c\<close>, row \<open>r\<close> and stepping by \<open>(dc, dr)\<close>,
  the four cells lie on the 7 by 6 grid and all hold \<open>p\<close>.
\<close>

definition fourFrom :: "CellState \<Rightarrow> Board \<Rightarrow> int \<Rightarrow> int \<Rightarrow> int \<Rightarrow> int \<Rightarrow> bool" where
  "fourFrom p b c r dc dr =
     (\<forall>i\<in>{0, 1, 2, 3}. 0 \<le> c + dc * i \<and> c + dc * i < WIDTH \<and>
         0 \<le> r + dr * i \<and> r + dr * i < HEIGHT \<and>
         cellAt b (r + dr * i) (c + dc * i) = Some p)"

text \<open>
  An answer with which \<^verbatim>\<open>aiMove\<close> ends in its \<^verbatim>\<open>catch\<close> block: the request was rejected,
  the status was not ok, or \<^verbatim>\<open>dropPiece\<close> returned \<open>-1\<close> for the column of the body.
\<close>

fun aiFails :: "Response \<Rightarrow> Board \<Rightarrow> bool" where
  "aiFails (Rejected msg) b = True"
| "aiFails (HttpError msg) b = True"
| "aiFails (Success column) b = (snd (dropPiece Red column b) = - 1)"

text \<open>
  The number of occupied cells of column \<open>c\<close>: the rows whose cell at \<open>c\<close> exists and is
  not empty.
\<close>

definition occupiedAt :: "CellState list \<Rightarrow> int \<Rightarrow> bool" where
  "occupiedAt cells c = (0 \<le> c \<and> c < int (length cells) \<and> cells ! nat c \<noteq> Empty)"

definition columnFill :: "Board \<Rightarrow> int \<Rightarrow> nat" where
  "columnFill b c = length (filter (\<lambda>cells. occupiedAt cells c) b)"

text \<open>
  A list of moves \<open>(player, column)\<close>, the history string that \<^verbatim>\<open>appendHistory\<close> builds
  for it token by token, and the number of its moves on column \<open>c\<close>. A move the page
  records is by Blue or Red on a column of the grid.
\<close>

definition encodeMoves :: "(CellState \<times> int) list \<Rightarrow> string" where
  "encodeMoves ms = concat (map (\<lambda>(p, c). historyToken p c) ms)"

definition movesInColumn :: "(CellState \<times> int) list \<Rightarrow> int \<Rightarrow> nat" where
  "movesInColumn ms c = length (filter (\<lambda>(p, c'). c' = c) ms)"

definition legalMove :: "CellState \<times> int \<Rightarrow> bool" where
  "legalMove m = ((fst m = Blue \<or> fst m = Red) \<and> 0 \<le> snd m \<and> snd m < WIDTH)"

text \<open>
  Board and history agree: the history is the token string of a list of such moves, and
  every column of the board holds as many pieces as the list has moves on that column.
\<close>

definition consistent :: "Board \<Rightarrow> string \<Rightarrow> bool" where
  "consistent b h =
     (wf_board b \<and>
      (\<exists>ms. h = encodeMoves ms \<and> list_all legalMove ms \<and>
            (\<forall>c. columnFill b c = movesInColumn ms c)))"

text \<open>
  A game in which Blue plays column 0 four times, the server answers column 1 three times
  and then column 2, and every wait has ended; and the state that game reaches.
\<close>

definition wonGame :: "Event list" where
  "wonGame =
     [Click 0, AnimationsSettled 0, Reply 0 (Success 1), AnimationsSettled 0,
      Click 0, AnimationsSettled 0, Reply 0 (Success 1), AnimationsSettled 0,
      Click 0, AnimationsSettled 0, Reply 0 (Success 1), AnimationsSettled 0,
      Click 0, AnimationsSettled 0, Reply 0 (Success 2), AnimationsSettled 0]"

definition wonState :: App where
  "wonState =
     \<lparr> board =
         [[Blue, Red, Red, Empty, Empty, Empty, Empty],
          [Blue, Red, Empty, Empty, Empty, Empty, Empty],
          [Blue, Red, Empty, Empty, Empty, Empty, Empty],
          [Blue, Empty, Empty, Empty, Empty, Empty, Empty],
          [Empty, Empty, Empty, Empty, Empty, Empty, Empty],
          [Empty, Empty, Empty, Empty, Empty, Empty, Empty]],
       history = ''B0R1B0R1B0R1B0R2'', level = 7, busy = False,
       status = ''AI done. Your turn.'', traceValue = ''B0R1B0R1B0R1B0R2'',
       outcomeValue = ''You win!'',
       winLine = Some (WinningLine Blue [(0, 0), (0, 1), (0, 2), (0, 3)]),
       tasks = [],
       requests =
         [\<lparr> position = ''B0'', levelParam = 7 \<rparr>,
          \<lparr> position = ''B0R1B0'', levelParam = 7 \<rparr>,
          \<lparr> position = ''B0R1B0R1B0'', levelParam = 7 \<rparr>,
          \<lparr> position = ''B0R1B0R1B0R1B0'', levelParam = 7 \<rparr>] \<rparr>"

section \<open>Properties\<close>

subsection \<open>Dropping a piece\<close>

lemma cellAt_Some_bounds:
  "cellAt b r c = Some v \<Longrightarrow> 0 \<le> r \<and> r < int (length b) \<and> 0 \<le> c \<and> c < int (length (b ! nat r)) \<and> b ! nat r ! nat c = v"
  by (auto simp: cellAt_def split: if_splits)

lemma cellAt_setCell:
  assumes "cellAt b r c = Some v"
  shows "cellAt (setCell b r c p) r' c' = (if r' = r \<and> c' = c then Some p else cellAt b r' c')"
proof -
  from assms have bd: "0 \<le> r" "r < int (length b)" "0 \<le> c" "c < int (length (b ! nat r))"
    by (auto dest: cellAt_Some_bounds)
  show ?thesis
  proof (cases "0 \<le> r' \<and> r' < int (length b)")
    case False
    then show ?thesis using bd by (auto simp: cellAt_def setCell_def)
  next
    case True
    show ?thesis
    proof (cases "r' = r")
      case True
      then show ?thesis using bd
        by (auto simp: cellAt_def setCell_def nth_list_update)
    next
      case False
      with True bd have "nat r' \<noteq> nat r" by auto
      then show ?thesis using True bd
        by (simp add: cellAt_def setCell_def)
    qed
  qed
qed

lemma wf_board_setCell: "wf_board b \<Longrightarrow> wf_board (setCell b r c p)"
  by (cases "nat r < length b")
     (auto simp: wf_board_def setCell_def list_all_length nth_list_update)

lemma dropPiece_from_result:
  "dropPiece_from p c row b = (b', r) \<Longrightarrow>
     (r = - 1 \<and> b' = b \<and> (\<forall>r'. row \<le> r' \<and> r' < HEIGHT \<longrightarrow> cellAt b r' c \<noteq> Some Empty)) \<or>
     (row \<le> r \<and> r < HEIGHT \<and> cellAt b r c = Some Empty \<and> b' = setCell b r c p \<and>
        (\<forall>r'. row \<le> r' \<and> r' < r \<longrightarrow> cellAt b r' c \<noteq> Some Empty))"
proof (induction p c row b rule: dropPiece_from.induct)
  case (1 player col row b)
  show ?case
  proof (cases "row < HEIGHT")
    case False
    with "1.prems" have "r = - 1 \<and> b' = b"
      by (auto simp: dropPiece_from.simps [of player col row b])
    moreover have "\<forall>r'. row \<le> r' \<and> r' < HEIGHT \<longrightarrow> cellAt b r' col \<noteq> Some Empty"
      using False by auto
    ultimately show ?thesis by blast
  next
    case inb: True
    show ?thesis
    proof (cases "cellAt b row col = Some Empty")
      case True
      with inb "1.prems" show ?thesis
        by (auto simp: dropPiece_from.simps [of player col row b])
    next
      case False
      with inb "1.prems" have "dropPiece_from player col (row + 1) b = (b', r)"
        by (simp add: dropPiece_from.simps [of player col row b])
      from "1.IH" [OF inb False this] show ?thesis
      proof
        assume a: "r = - 1 \<and> b' = b \<and> (\<forall>r'. row + 1 \<le> r' \<and> r' < HEIGHT \<longrightarrow> cellAt b r' col \<noteq> Some Empty)"
        have "\<forall>r'. row \<le> r' \<and> r' < HEIGHT \<longrightarrow> cellAt b r' col \<noteq> Some Empty"
        proof (intro allI impI)
          fix r' assume "row \<le> r' \<and> r' < HEIGHT"
          then consider "r' = row" | "row + 1 \<le> r' \<and> r' < HEIGHT" by linarith
          then show "cellAt b r' col \<noteq> Some Empty" using False a by cases auto
        qed
        with a show ?thesis by simp
      next
        assume a: "row + 1 \<le> r \<and> r < HEIGHT \<and> cellAt b r col = Some Empty \<and> b' = setCell b r col player \<and>
        (\<forall>r'. row + 1 \<le> r' \<and> r' < r \<longrightarrow> cellAt b r' col \<noteq> Some Empty)"
        have "\<forall>r'. row \<le> r' \<and> r' < r \<longrightarrow> cellAt b r' col \<noteq> Some Empty"
        proof (intro allI impI)
          fix r' assume "row \<le> r' \<and> r' < r"
          then consider "r' = row" | "row + 1 \<le> r' \<and> r' < r" by linarith
          then show "cellAt b r' col \<noteq> Some Empty" using False a by cases auto
        qed
        with a show ?thesis by simp
      qed
    qed
  qed
qed


lemma dropPiece_from_total: "\<exists>b' r. dropPiece_from p c row b = (b', r)"
  by (cases "dropPiece_from p c row b") blast

lemma wf_board_cellAt:
  "wf_board b \<Longrightarrow> cellAt b r c = Some v \<Longrightarrow> 0 \<le> r \<and> r < HEIGHT \<and> 0 \<le> c \<and> c < WIDTH"
  by (auto simp: wf_board_def cellAt_def list_all_length HEIGHT_def WIDTH_def split: if_splits)

text \<open>
  Claim C5. For a board of 6 rows by 7 columns, any player \<open>p\<close> and a column \<open>c\<close> in
  \<open>[0, 6]\<close>: if \<open>r\<close> is the lowest row whose cell in column \<open>c\<close> is empty, then
  \<open>dropPiece p c\<close> writes \<open>p\<close> into that cell and returns \<open>r\<close>; if no row of the
  column is empty it returns \<open>-1\<close> and leaves the board as it was.
\<close>

theorem dropPiece_lowest_empty_or_full:
  assumes "wf_board b" and "0 \<le> c" and "c < WIDTH"
  shows "(\<forall>r. 0 \<le> r \<and> r < HEIGHT \<and> cellAt b r c = Some Empty \<and>
              (\<forall>r'. 0 \<le> r' \<and> r' < r \<longrightarrow> cellAt b r' c \<noteq> Some Empty)
            \<longrightarrow> dropPiece p c b = (setCell b r c p, r) \<and>
                cellAt (fst (dropPiece p c b)) r c = Some p) \<and>
         ((\<forall>r. 0 \<le> r \<and> r < HEIGHT \<longrightarrow> cellAt b r c \<noteq> Some Empty)
            \<longrightarrow> dropPiece p c b = (b, - 1))"
proof (intro conjI allI impI)
  fix r
  assume a: "0 \<le> r \<and> r < HEIGHT \<and> cellAt b r c = Some Empty \<and>
              (\<forall>r'. 0 \<le> r' \<and> r' < r \<longrightarrow> cellAt b r' c \<noteq> Some Empty)"
  obtain b' k where res: "dropPiece_from p c 0 b = (b', k)"
    using dropPiece_from_total by blast
  from dropPiece_from_result [OF res] a have "k = r \<and> b' = setCell b r c p"
    by (metis not_less_iff_gr_or_eq order_less_imp_le)
  with res show "dropPiece p c b = (setCell b r c p, r)"
    by (simp add: dropPiece_def)
  then show "cellAt (fst (dropPiece p c b)) r c = Some p"
    using a by (simp add: cellAt_setCell)
next
  assume a: "\<forall>r. 0 \<le> r \<and> r < HEIGHT \<longrightarrow> cellAt b r c \<noteq> Some Empty"
  obtain b' k where res: "dropPiece_from p c 0 b = (b', k)"
    using dropPiece_from_total by blast
  from dropPiece_from_result [OF res] a have "k = - 1 \<and> b' = b"
    by blast
  with res show "dropPiece p c b = (b, - 1)"
    by (simp add: dropPiece_def)
qed

theorem dropPiece_lowest_empty_or_full_witness:
  "wf_board emptyBoard \<and> (0::int) \<le> 3 \<and> 3 < WIDTH \<and>
   dropPiece Blue 3 emptyBoard = (setCell emptyBoard 0 3 Blue, 0) \<and>
   wf_board (replicate 6 (Red # replicate 6 Empty)) \<and> (0::int) \<le> 0 \<and> 0 < WIDTH \<and>
   dropPiece Blue 0 (replicate 6 (Red # replicate 6 Empty))
     = (replicate 6 (Red # replicate 6 Empty), - 1)"
proof -
  have w1: "wf_board emptyBoard" by code_simp
  have c1: "(0::int) \<le> 3" and c2: "3 < WIDTH" by (simp_all add: WIDTH_def)
  have e1: "0 \<le> (0::int) \<and> 0 < HEIGHT \<and> cellAt emptyBoard 0 3 = Some Empty \<and>
              (\<forall>r'. 0 \<le> r' \<and> r' < (0::int) \<longrightarrow> cellAt emptyBoard r' 3 \<noteq> Some Empty)"
    by (simp add: HEIGHT_def cellAt_def emptyBoard_def WIDTH_def)
  have w2: "wf_board (replicate 6 (Red # replicate 6 Empty))" by code_simp
  have d1: "(0::int) \<le> 0" and d2: "0 < WIDTH" by (simp_all add: WIDTH_def)
  have e2: "\<forall>r. 0 \<le> r \<and> r < HEIGHT \<longrightarrow>
              cellAt (replicate 6 (Red # replicate 6 Empty)) r 0 \<noteq> Some Empty"
    by (auto simp: HEIGHT_def cellAt_def)
  from dropPiece_lowest_empty_or_full [OF w1 c1 c2, of Blue] e1
  have r1: "dropPiece Blue 3 emptyBoard = (setCell emptyBoard 0 3 Blue, 0)" by blast
  from dropPiece_lowest_empty_or_full [OF w2 d1 d2, of Blue] e2
  have r2: "dropPiece Blue 0 (replicate 6 (Red # replicate 6 Empty))
     = (replicate 6 (Red # replicate 6 Empty), - 1)" by blast
  from w1 c1 c2 r1 w2 d1 d2 r2 show ?thesis by blast
qed

text \<open>
  Claim C10. A call of \<open>dropPiece p c\<close> that returns a row \<open>r \<ge> 0\<close> changes one cell
  only: the cell at row \<open>r\<close>, column \<open>c\<close> was empty and now holds \<open>p\<close>, and every
  other cell reads as before. Whatever the call returns, a cell that was occupied keeps
  its content, so no call overwrites a piece.
\<close>

theorem dropPiece_frame:
  assumes "wf_board b" and "dropPiece p c b = (b', r)"
  shows "(0 \<le> r \<longrightarrow> r < HEIGHT \<and> 0 \<le> c \<and> c < WIDTH \<and>
            cellAt b r c = Some Empty \<and> cellAt b' r c = Some p \<and>
            (\<forall>r' c'. (r', c') \<noteq> (r, c) \<longrightarrow> cellAt b' r' c' = cellAt b r' c')) \<and>
         (r < 0 \<longrightarrow> r = - 1 \<and> b' = b) \<and>
         (\<forall>r' c' v. cellAt b r' c' = Some v \<and> v \<noteq> Empty \<longrightarrow> cellAt b' r' c' = Some v) \<and>
         wf_board b'"
proof -
  from assms(2) have res: "dropPiece_from p c 0 b = (b', r)"
    by (simp add: dropPiece_def)
  from dropPiece_from_result [OF res]
  consider (full) "r = - 1" "b' = b"
    | (placed) "0 \<le> r" "r < HEIGHT" "cellAt b r c = Some Empty" "b' = setCell b r c p"
    by blast
  then show ?thesis
  proof cases
    case full
    with assms(1) show ?thesis by simp
  next
    case placed
    from wf_board_cellAt [OF assms(1) placed(3)] have cb: "0 \<le> c \<and> c < WIDTH" by simp
    have upd: "\<And>r' c'. cellAt b' r' c' = (if r' = r \<and> c' = c then Some p else cellAt b r' c')"
      using placed(3,4) by (simp add: cellAt_setCell)
    have keep: "\<forall>r' c' v. cellAt b r' c' = Some v \<and> v \<noteq> Empty \<longrightarrow> cellAt b' r' c' = Some v"
      using upd placed(3) by auto
    show ?thesis
      using placed cb upd keep assms(1) by (auto simp: wf_board_setCell)
  qed
qed

theorem dropPiece_frame_witness:
  "wf_board emptyBoard \<and> dropPiece Red 2 emptyBoard = (setCell emptyBoard 0 2 Red, 0) \<and>
   cellAt emptyBoard 0 2 = Some Empty \<and> cellAt (setCell emptyBoard 0 2 Red) 0 2 = Some Red \<and>
   cellAt (setCell emptyBoard 0 2 Red) 0 3 = cellAt emptyBoard 0 3"
proof -
  have w: "wf_board emptyBoard" by code_simp
  have d: "dropPiece Red 2 emptyBoard = (setCell emptyBoard 0 2 Red, 0)" by code_simp
  have n: "((0::int), (3::int)) \<noteq> (0, 2)" by simp
  from dropPiece_frame [OF w d] n w d show ?thesis by simp
qed

subsection \<open>Finding a winning line\<close>

lemma collectLine_eq:
  "collectLine p c r dc dr b =
     (if \<forall>i\<in>{0, 1, 2, 3}. 0 \<le> c + dc * i \<and> c + dc * i < WIDTH \<and> 0 \<le> r + dr * i \<and>
            r + dr * i < HEIGHT \<and> cellAt b (r + dr * i) (c + dc * i) = Some p
      then Some [(c, r), (c + dc, r + dr), (c + dc * 2, r + dr * 2), (c + dc * 3, r + dr * 3)]
      else None)"
  by (simp add: collectLine_def Let_def
        collectLine_from.simps [where i = 0] collectLine_from.simps [where i = 1]
        collectLine_from.simps [where i = 2] collectLine_from.simps [where i = 3]
        collectLine_from.simps [where i = 4] not_le not_less)

lemma findWinningLine_dirs_None:
  "findWinningLine_dirs p c r ds b = None \<longleftrightarrow>
     (\<forall>d\<in>set ds. collectLine p c r (fst d) (snd d) b = None)"
  by (induction ds) (auto split: option.splits)

lemma findWinningLine_dirs_Some:
  "findWinningLine_dirs p c r ds b = Some l \<Longrightarrow>
     \<exists>(dc, dr)\<in>set ds. collectLine p c r dc dr b = Some (wl_cells l) \<and> wl_player l = p"
  by (induction ds) (auto split: option.splits)

lemma findWinningLine_rows_None:
  "findWinningLine_rows p c r b = None \<longleftrightarrow>
     (\<forall>r'. r \<le> r' \<and> r' < HEIGHT \<longrightarrow> findWinningLine_dirs p c r' dirs b = None)"
proof (induction p c r b rule: findWinningLine_rows.induct)
  case (1 player c r b)
  show ?case
  proof (cases "r < HEIGHT")
    case False
    then show ?thesis by (auto simp: findWinningLine_rows.simps [of player c r b])
  next
    case inb: True
    show ?thesis
    proof (cases "findWinningLine_dirs player c r dirs b")
      case (Some l)
      with inb show ?thesis
        by (auto simp: findWinningLine_rows.simps [of player c r b])
    next
      case None
      have split: "\<And>r'. (r \<le> r' \<and> r' < HEIGHT) = (r' = r \<or> (r + 1 \<le> r' \<and> r' < HEIGHT))"
        using inb by auto
      from None inb "1.IH" [OF inb None] show ?thesis
        by (auto simp: findWinningLine_rows.simps [of player c r b] split)
    qed
  qed
qed

lemma findWinningLine_rows_Some:
  "findWinningLine_rows p c r b = Some l \<Longrightarrow>
     \<exists>r'. r \<le> r' \<and> r' < HEIGHT \<and> findWinningLine_dirs p c r' dirs b = Some l"
proof (induction p c r b rule: findWinningLine_rows.induct)
  case (1 player c r b)
  from "1.prems" have inb: "r < HEIGHT"
    by (simp add: findWinningLine_rows.simps [of player c r b] split: if_splits)
  show ?case
  proof (cases "findWinningLine_dirs player c r dirs b")
    case (Some l')
    with inb "1.prems" show ?thesis
      by (auto simp: findWinningLine_rows.simps [of player c r b])
  next
    case None
    with inb "1.prems" have "findWinningLine_rows player c (r + 1) b = Some l"
      by (simp add: findWinningLine_rows.simps [of player c r b])
    from "1.IH" [OF inb None this] obtain r' where
      "r + 1 \<le> r'" "r' < HEIGHT" "findWinningLine_dirs player c r' dirs b = Some l" by blast
    then have "r \<le> r' \<and> r' < HEIGHT \<and> findWinningLine_dirs player c r' dirs b = Some l"
      by simp
    then show ?thesis by blast
  qed
qed

lemma findWinningLine_cols_None:
  "findWinningLine_cols p c b = None \<longleftrightarrow>
     (\<forall>c'. c \<le> c' \<and> c' < WIDTH \<longrightarrow> findWinningLine_rows p c' 0 b = None)"
proof (induction p c b rule: findWinningLine_cols.induct)
  case (1 player c b)
  show ?case
  proof (cases "c < WIDTH")
    case False
    then show ?thesis by (auto simp: findWinningLine_cols.simps [of player c b])
  next
    case inb: True
    show ?thesis
    proof (cases "findWinningLine_rows player c 0 b")
      case (Some l)
      with inb show ?thesis
        by (auto simp: findWinningLine_cols.simps [of player c b])
    next
      case None
      have split: "\<And>c'. (c \<le> c' \<and> c' < WIDTH) = (c' = c \<or> (c + 1 \<le> c' \<and> c' < WIDTH))"
        using inb by auto
      from None inb "1.IH" [OF inb None] show ?thesis
        by (auto simp: findWinningLine_cols.simps [of player c b] split)
    qed
  qed
qed

lemma findWinningLine_cols_Some:
  "findWinningLine_cols p c b = Some l \<Longrightarrow>
     \<exists>c'. c \<le> c' \<and> c' < WIDTH \<and> findWinningLine_rows p c' 0 b = Some l"
proof (induction p c b rule: findWinningLine_cols.induct)
  case (1 player c b)
  from "1.prems" have inb: "c < WIDTH"
    by (simp add: findWinningLine_cols.simps [of player c b] split: if_splits)
  show ?case
  proof (cases "findWinningLine_rows player c 0 b")
    case (Some l')
    with inb "1.prems" show ?thesis
      by (auto simp: findWinningLine_cols.simps [of player c b])
  next
    case None
    with inb "1.prems" have "findWinningLine_cols player (c + 1) b = Some l"
      by (simp add: findWinningLine_cols.simps [of player c b])
    from "1.IH" [OF inb None this] obtain c' where
      "c + 1 \<le> c'" "c' < WIDTH" "findWinningLine_rows player c' 0 b = Some l" by blast
    then have "c \<le> c' \<and> c' < WIDTH \<and> findWinningLine_rows player c' 0 b = Some l"
      by simp
    then show ?thesis by blast
  qed
qed


lemma collectLine_fourFrom:
  "collectLine p c r dc dr b =
     (if fourFrom p b c r dc dr
      then Some [(c, r), (c + dc, r + dr), (c + dc * 2, r + dr * 2), (c + dc * 3, r + dr * 3)]
      else None)"
  unfolding fourFrom_def by (rule collectLine_eq)

lemma findWinningLine_Some_line:
  assumes "findWinningLine p b = Some l"
  shows "wl_player l = p \<and>
         (\<exists>c r dc dr. (dc, dr) \<in> set dirs \<and> fourFrom p b c r dc dr \<and>
            wl_cells l = [(c, r), (c + dc, r + dr), (c + dc * 2, r + dr * 2), (c + dc * 3, r + dr * 3)])"
proof -
  from assms obtain c where c: "findWinningLine_rows p c 0 b = Some l"
    unfolding findWinningLine_def by (blast dest: findWinningLine_cols_Some)
  then obtain r where r: "findWinningLine_dirs p c r dirs b = Some l"
    by (blast dest: findWinningLine_rows_Some)
  from findWinningLine_dirs_Some [OF r] obtain dc dr where
    d: "(dc, dr) \<in> set dirs" "collectLine p c r dc dr b = Some (wl_cells l)" "wl_player l = p"
    by blast
  from d(2) have "fourFrom p b c r dc dr \<and>
      wl_cells l = [(c, r), (c + dc, r + dr), (c + dc * 2, r + dr * 2), (c + dc * 3, r + dr * 3)]"
    by (simp add: collectLine_fourFrom split: if_splits)
  with d(1,3) show ?thesis by blast
qed

lemma fourFrom_found:
  assumes "(dc, dr) \<in> set dirs" and "fourFrom p b c r dc dr"
  shows "findWinningLine p b \<noteq> None"
proof
  assume none: "findWinningLine p b = None"
  from assms(2) have bounds: "0 \<le> c \<and> c < WIDTH" "0 \<le> r \<and> r < HEIGHT"
    by (simp_all add: fourFrom_def)
  from none have "findWinningLine_cols p 0 b = None"
    by (simp add: findWinningLine_def)
  then have "\<forall>c'. 0 \<le> c' \<and> c' < WIDTH \<longrightarrow> findWinningLine_rows p c' 0 b = None"
    by (rule iffD1 [OF findWinningLine_cols_None])
  with bounds(1) have "findWinningLine_rows p c 0 b = None" by blast
  then have "\<forall>r'. 0 \<le> r' \<and> r' < HEIGHT \<longrightarrow> findWinningLine_dirs p c r' dirs b = None"
    by (rule iffD1 [OF findWinningLine_rows_None])
  with bounds(2) have "findWinningLine_dirs p c r dirs b = None" by blast
  then have "\<forall>d\<in>set dirs. collectLine p c r (fst d) (snd d) b = None"
    by (rule iffD1 [OF findWinningLine_dirs_None])
  from bspec [OF this assms(1)] have "collectLine p c r dc dr b = None" by simp
  with assms(2) show False by (simp add: collectLine_fourFrom)
qed

text \<open>
  Claim C4. On a 6 by 7 board and for every \<open>p\<close>, \<open>findWinningLine p\<close> returns a line
  exactly when four cells holding \<open>p\<close> lie on the grid in a row along one of the steps
  \<open>(1,0)\<close>, \<open>(0,1)\<close>, \<open>(1,1)\<close>, \<open>(1,-1)\<close>. The line it returns carries \<open>p\<close> and
  four distinct cells, consecutive along one of these steps, each on the grid and each
  holding \<open>p\<close>.
\<close>

theorem findWinningLine_four_connected:
  assumes "wf_board b"
  shows "(findWinningLine p b \<noteq> None \<longleftrightarrow>
           (\<exists>c r dc dr. (dc, dr) \<in> {(1, 0), (0, 1), (1, 1), (1, - 1)} \<and> fourFrom p b c r dc dr)) \<and>
         (\<forall>l. findWinningLine p b = Some l \<longrightarrow>
            wl_player l = p \<and> length (wl_cells l) = 4 \<and> distinct (wl_cells l) \<and>
            (\<exists>c r dc dr. (dc, dr) \<in> {(1, 0), (0, 1), (1, 1), (1, - 1)} \<and>
               wl_cells l =
                 [(c, r), (c + dc, r + dr), (c + dc * 2, r + dr * 2), (c + dc * 3, r + dr * 3)]) \<and>
            (\<forall>(c', r')\<in>set (wl_cells l). 0 \<le> c' \<and> c' < WIDTH \<and> 0 \<le> r' \<and> r' < HEIGHT \<and>
               cellAt b r' c' = Some p))"
proof (intro conjI allI impI iffI)
  assume "findWinningLine p b \<noteq> None"
  then obtain l where "findWinningLine p b = Some l" by blast
  from findWinningLine_Some_line [OF this] obtain c r dc dr where
    "(dc, dr) \<in> set dirs" "fourFrom p b c r dc dr" by blast
  then have "(dc, dr) \<in> {(1, 0), (0, 1), (1, 1), (1, - 1)} \<and> fourFrom p b c r dc dr"
    by (simp add: dirs_def)
  then show "\<exists>c r dc dr. (dc, dr) \<in> {(1, 0), (0, 1), (1, 1), (1, - 1)} \<and> fourFrom p b c r dc dr"
    by blast
next
  assume "\<exists>c r dc dr. (dc, dr) \<in> {(1, 0), (0, 1), (1, 1), (1, - 1)} \<and> fourFrom p b c r dc dr"
  then obtain c r dc dr where
    "(dc, dr) \<in> {(1, 0), (0, 1), (1, 1), (1, - 1)}" "fourFrom p b c r dc dr" by blast
  then have "(dc, dr) \<in> set dirs" "fourFrom p b c r dc dr"
    by (simp_all add: dirs_def)
  then show "findWinningLine p b \<noteq> None" by (rule fourFrom_found)
next
  fix l assume l: "findWinningLine p b = Some l"
  from findWinningLine_Some_line [OF l] obtain c r dc dr where
    line: "wl_player l = p" "(dc, dr) \<in> set dirs" "fourFrom p b c r dc dr"
      "wl_cells l = [(c, r), (c + dc, r + dr), (c + dc * 2, r + dr * 2), (c + dc * 3, r + dr * 3)]"
    by blast
  from line(2) have d: "(dc, dr) \<in> {(1, 0), (0, 1), (1, 1), (1, - 1)}"
    by (simp add: dirs_def)
  then have nz: "dc = 1 \<or> (dc = 0 \<and> dr = 1)" by auto
  show "wl_player l = p" by (rule line(1))
  show "length (wl_cells l) = 4" by (simp add: line(4))
  show "distinct (wl_cells l)" using nz by (auto simp: line(4))
  show "\<exists>c r dc dr. (dc, dr) \<in> {(1, 0), (0, 1), (1, 1), (1, - 1)} \<and>
          wl_cells l =
            [(c, r), (c + dc, r + dr), (c + dc * 2, r + dr * 2), (c + dc * 3, r + dr * 3)]"
    using d line(4) by blast
  show "\<forall>(c', r')\<in>set (wl_cells l). 0 \<le> c' \<and> c' < WIDTH \<and> 0 \<le> r' \<and> r' < HEIGHT \<and>
          cellAt b r' c' = Some p"
    using line(3) by (simp add: line(4) fourFrom_def)
qed

theorem findWinningLine_four_connected_witness:
  "wf_board ([Blue, Blue, Blue, Blue, Empty, Empty, Empty] # replicate 5 (replicate 7 Empty)) \<and>
   fourFrom Blue ([Blue, Blue, Blue, Blue, Empty, Empty, Empty] # replicate 5 (replicate 7 Empty))
     0 0 1 0 \<and>
   findWinningLine Blue ([Blue, Blue, Blue, Blue, Empty, Empty, Empty] # replicate 5 (replicate 7 Empty))
     \<noteq> None \<and>
   findWinningLine Red ([Blue, Blue, Blue, Blue, Empty, Empty, Empty] # replicate 5 (replicate 7 Empty))
     = None"
proof -
  let ?b = "[Blue, Blue, Blue, Blue, Empty, Empty, Empty] # replicate 5 (replicate 7 Empty)"
  have w: "wf_board ?b" by code_simp
  have f: "fourFrom Blue ?b 0 0 1 0" by code_simp
  have n: "findWinningLine Red ?b = None" by code_simp
  from findWinningLine_four_connected [OF w, of Blue] f
  have "findWinningLine Blue ?b \<noteq> None" by blast
  with w f n show ?thesis by blast
qed

subsection \<open>Fields that the handlers keep\<close>

lemma updateInfo_fields [simp]:
  "board (updateInfo s) = board s"
  "history (updateInfo s) = history s"
  "level (updateInfo s) = level s"
  "busy (updateInfo s) = busy s"
  "status (updateInfo s) = status s"
  "tasks (updateInfo s) = tasks s"
  "requests (updateInfo s) = requests s"
  by (simp_all add: updateInfo_def Let_def)

lemma appendHistory_fields [simp]:
  "board (appendHistory p c s) = board s"
  "history (appendHistory p c s) = history s @ historyToken p c"
  "level (appendHistory p c s) = level s"
  "busy (appendHistory p c s) = busy s"
  "status (appendHistory p c s) = status s"
  "tasks (appendHistory p c s) = tasks s"
  "requests (appendHistory p c s) = requests s"
  by (simp_all add: appendHistory_def)

lemma dropPiece_failed_board:
  "snd (dropPiece p c b) = - 1 \<Longrightarrow> fst (dropPiece p c b) = b"
proof -
  assume a: "snd (dropPiece p c b) = - 1"
  obtain b' r where res: "dropPiece_from p c 0 b = (b', r)"
    using dropPiece_from_total by blast
  with a have "r = - 1" by (simp add: dropPiece_def)
  with dropPiece_from_result [OF res] have "b' = b" by auto
  with res show ?thesis by (simp add: dropPiece_def)
qed

text \<open>
  Claim C9. When the request of \<^verbatim>\<open>aiMove\<close> fails (it is rejected, the status is not ok,
  or the column of the body admits no drop), the state after \<^verbatim>\<open>aiMove\<close> is the state
  before it with a new status line \<open>API error: ...\<close> and nothing else changed; the board
  and the history in particular are as before. Sending the request changes neither.
\<close>

theorem aiMove_failure_leaves_state:
  assumes "aiFails resp (board s)"
  shows "(\<exists>msg. aiMove_response resp s = s\<lparr> status := ''API error: '' @ msg \<rparr>) \<and>
         board (aiMove_response resp s) = board s \<and>
         history (aiMove_response resp s) = history s \<and>
         board (aiMove_request s) = board s \<and> history (aiMove_request s) = history s \<and>
         board (aiMove_response resp (aiMove_request s)) = board s \<and>
         history (aiMove_response resp (aiMove_request s)) = history s"
proof -
  have fail: "\<And>t :: App. aiFails resp (board t) \<Longrightarrow>
      \<exists>msg. aiMove_response resp t = t\<lparr> status := ''API error: '' @ msg \<rparr>"
  proof -
    fix t :: App assume a: "aiFails resp (board t)"
    show "\<exists>msg. aiMove_response resp t = t\<lparr> status := ''API error: '' @ msg \<rparr>"
    proof (cases resp)
      case (Rejected msg)
      then show ?thesis by (auto simp: aiMove_response_def apiError_def)
    next
      case (HttpError msg)
      then show ?thesis by (auto simp: aiMove_response_def apiError_def)
    next
      case (Success k)
      with a have f: "snd (dropPiece Red k (board t)) = - 1" by simp
      from dropPiece_failed_board [OF f] have b: "fst (dropPiece Red k (board t)) = board t" .
      obtain b' r where d: "dropPiece Red k (board t) = (b', r)"
        by (cases "dropPiece Red k (board t)")
      with f b have "r = - 1" "b' = board t" by simp_all
      with Success d show ?thesis
        by (auto simp: aiMove_response_def apiError_def)
    qed
  qed
  have req: "board (aiMove_request s) = board s" "history (aiMove_request s) = history s"
    by (simp_all add: aiMove_request_def)
  from fail [OF assms] obtain m1 where
    r1: "aiMove_response resp s = s\<lparr> status := ''API error: '' @ m1 \<rparr>" by blast
  from assms req(1) have "aiFails resp (board (aiMove_request s))" by simp
  from fail [OF this] obtain m2 where
    r2: "aiMove_response resp (aiMove_request s)
           = (aiMove_request s)\<lparr> status := ''API error: '' @ m2 \<rparr>" by blast
  have "board (aiMove_response resp s) = board s" "history (aiMove_response resp s) = history s"
    by (simp_all add: r1)
  moreover have "board (aiMove_response resp (aiMove_request s)) = board s"
    "history (aiMove_response resp (aiMove_request s)) = history s"
    by (simp_all add: r2 req)
  ultimately show ?thesis using r1 req by blast
qed

theorem aiMove_failure_leaves_state_witness:
  "aiFails (Success 0) (board (init\<lparr> board := replicate 6 (Red # replicate 6 Empty) \<rparr>)) \<and>
   aiMove_response (Success 0) (init\<lparr> board := replicate 6 (Red # replicate 6 Empty) \<rparr>)
     = init\<lparr> board := replicate 6 (Red # replicate 6 Empty),
             status := ''API error: AI attempted an illegal column'' \<rparr> \<and>
   aiFails (HttpError ''bad position'') (board init) \<and>
   board (aiMove_response (HttpError ''bad position'') init) = board init \<and>
   history (aiMove_response (HttpError ''bad position'') init) = history init"
proof -
  let ?s = "init\<lparr> board := replicate 6 (Red # replicate 6 Empty) \<rparr>"
  have f1: "aiFails (Success 0) (board ?s)" by code_simp
  have e1: "aiMove_response (Success 0) ?s
     = init\<lparr> board := replicate 6 (Red # replicate 6 Empty),
             status := ''API error: AI attempted an illegal column'' \<rparr>" by code_simp
  have f2: "aiFails (HttpError ''bad position'') (board init)" by simp
  from aiMove_failure_leaves_state [OF f2] f1 e1 f2 show ?thesis by simp
qed

lemma dropPiece_cases:
  obtains (full) "dropPiece p c b = (b, - 1)"
      "\<forall>r. 0 \<le> r \<and> r < HEIGHT \<longrightarrow> cellAt b r c \<noteq> Some Empty"
  | (placed) r where "dropPiece p c b = (setCell b r c p, r)" "0 \<le> r" "r < HEIGHT"
      "cellAt b r c = Some Empty" "\<forall>r'. 0 \<le> r' \<and> r' < r \<longrightarrow> cellAt b r' c \<noteq> Some Empty"
proof -
  obtain b' k where res: "dropPiece_from p c 0 b = (b', k)"
    using dropPiece_from_total by blast
  from dropPiece_from_result [OF res] show ?thesis
  proof
    assume "k = - 1 \<and> b' = b \<and> (\<forall>r'. 0 \<le> r' \<and> r' < HEIGHT \<longrightarrow> cellAt b r' c \<noteq> Some Empty)"
    with res show ?thesis by (intro full) (simp_all add: dropPiece_def)
  next
    assume "0 \<le> k \<and> k < HEIGHT \<and> cellAt b k c = Some Empty \<and> b' = setCell b k c p \<and>
        (\<forall>r'. 0 \<le> r' \<and> r' < k \<longrightarrow> cellAt b r' c \<noteq> Some Empty)"
    with res show ?thesis by (intro placed [of k]) (simp_all add: dropPiece_def)
  qed
qed

text \<open>
  Claim C7. The column \<open>k\<close> of the body is used as a 0-indexed column: for \<open>k\<close> in
  \<open>[0, 6]\<close> and an answer that does not fail, the board after \<^verbatim>\<open>aiMove\<close> is the board
  that \<open>dropPiece Red k\<close> leaves, the red piece sits in the lowest empty cell of column
  \<open>k\<close> itself, every cell of every other column is unchanged, and the token appended
  names \<open>k\<close>.
\<close>

theorem aiMove_uses_column_as_is:
  assumes "wf_board (board s)" and "0 \<le> k" and "k < WIDTH"
    and "\<not> aiFails (Success k) (board s)"
  shows "board (aiMove_response (Success k) s) = fst (dropPiece Red k (board s)) \<and>
         history (aiMove_response (Success k) s) = history s @ historyToken Red k \<and>
         (\<exists>r. 0 \<le> r \<and> r < HEIGHT \<and> cellAt (board s) r k = Some Empty \<and>
              board (aiMove_response (Success k) s) = setCell (board s) r k Red \<and>
              cellAt (board (aiMove_response (Success k) s)) r k = Some Red \<and>
              (\<forall>r' c'. c' \<noteq> k \<longrightarrow>
                 cellAt (board (aiMove_response (Success k) s)) r' c' = cellAt (board s) r' c'))"
proof (cases rule: dropPiece_cases [of Red k "board s"])
  case full
  with assms(4) show ?thesis by simp
next
  case (placed r)
  have b: "board (aiMove_response (Success k) s) = setCell (board s) r k Red"
    using placed(1,2) by (simp add: aiMove_response_def)
  have h: "history (aiMove_response (Success k) s) = history s @ historyToken Red k"
    using placed(1,2) by (simp add: aiMove_response_def)
  have upd: "\<And>r' c'. cellAt (setCell (board s) r k Red) r' c' =
      (if r' = r \<and> c' = k then Some Red else cellAt (board s) r' c')"
    using placed(4) by (simp add: cellAt_setCell)
  show ?thesis
    using placed b h upd by auto
qed

theorem aiMove_uses_column_as_is_witness:
  "wf_board (board init) \<and> (0::int) \<le> 3 \<and> 3 < WIDTH \<and> \<not> aiFails (Success 3) (board init) \<and>
   board (aiMove_response (Success 3) init) = setCell emptyBoard 0 3 Red \<and>
   history (aiMove_response (Success 3) init) = ''R3''"
proof -
  have w: "wf_board (board init)" by code_simp
  have c1: "(0::int) \<le> 3" and c2: "3 < WIDTH" by (simp_all add: WIDTH_def)
  have nf: "\<not> aiFails (Success 3) (board init)" by code_simp
  have d: "fst (dropPiece Red 3 (board init)) = setCell emptyBoard 0 3 Red" by code_simp
  have t: "history init @ historyToken Red 3 = ''R3''" by code_simp
  from aiMove_uses_column_as_is [OF w c1 c2 nf] d t w c1 c2 nf show ?thesis by simp
qed


lemma run_wonGame: "run wonGame init = wonState"
  by code_simp

lemma wonState_click:
  "findWinningLine Blue (board wonState) = Some (WinningLine Blue [(0, 0), (0, 1), (0, 2), (0, 3)])"
  "\<not> busy wonState"
  "cellAt (board wonState) 0 3 = Some Empty"
  "wf_board (board wonState)"
  "history wonState @ historyToken Blue 3 = ''B0R1B0R1B0R1B0R2B3''"
  by code_simp+

text \<open>
  Claim C2 says that once \<^verbatim>\<open>findWinningLine\<close> reports a line no click appends a token or
  places a piece. In the game \<open>wonGame\<close> Blue has four in column 0, and the next click on
  column 3 is recorded all the same.
\<close>

theorem handleMove_after_win_counterexample:
  "findWinningLine Blue (board (run wonGame init)) =
     Some (WinningLine Blue [(0, 0), (0, 1), (0, 2), (0, 3)]) \<and>
   history (run wonGame init) = ''B0R1B0R1B0R1B0R2'' \<and>
   history (fire (Click 3) (run wonGame init)) = ''B0R1B0R1B0R1B0R2B3'' \<and>
   cellAt (board (run wonGame init)) 0 3 = Some Empty \<and>
   cellAt (board (fire (Click 3) (run wonGame init))) 0 3 = Some Blue"
  unfolding run_wonGame by code_simp

text \<open>
  Claim C2, as the code has it. \<^verbatim>\<open>handleMove\<close> never looks at \<^verbatim>\<open>findWinningLine\<close>. On a
  6 by 7 board a click on a column \<open>c\<close> in \<open>[0, 6]\<close> leaves history and board alone
  when \<open>busy\<close> is set or column \<open>c\<close> is full; in every other state it appends the token
  of Blue on \<open>c\<close> and drops a blue piece into column \<open>c\<close>, whether or not a winning
  line is on the board.
\<close>

theorem handleMove_gate:
  assumes "wf_board (board s)" and "0 \<le> c" and "c < WIDTH"
  shows "(busy s \<or> (\<forall>r. 0 \<le> r \<and> r < HEIGHT \<longrightarrow> cellAt (board s) r c \<noteq> Some Empty) \<longrightarrow>
            history (fire (Click c) s) = history s \<and> board (fire (Click c) s) = board s) \<and>
         (\<not> busy s \<and> (\<exists>r. 0 \<le> r \<and> r < HEIGHT \<and> cellAt (board s) r c = Some Empty) \<longrightarrow>
            history (fire (Click c) s) = history s @ historyToken Blue c \<and>
            board (fire (Click c) s) = fst (dropPiece Blue c (board s)) \<and>
            (\<exists>r. 0 \<le> r \<and> r < HEIGHT \<and> cellAt (board s) r c = Some Empty \<and>
                 cellAt (board (fire (Click c) s)) r c = Some Blue))"
proof (cases "busy s")
  case True
  with assms show ?thesis by (simp add: handleMove_start_def)
next
  case idle: False
  show ?thesis
  proof (cases rule: dropPiece_cases [of Blue c "board s"])
    case full
    with idle assms show ?thesis
      by (auto simp: handleMove_start_def Let_def)
  next
    case (placed r)
    have h: "history (fire (Click c) s) = history s @ historyToken Blue c"
      using idle assms placed(1,2) by (simp add: handleMove_start_def Let_def)
    have b: "board (fire (Click c) s) = setCell (board s) r c Blue"
      using idle assms placed(1,2) by (simp add: handleMove_start_def Let_def)
    have "cellAt (setCell (board s) r c Blue) r c = Some Blue"
      using placed(4) by (simp add: cellAt_setCell)
    with h b placed idle show ?thesis by auto
  qed
qed

theorem handleMove_gate_witness:
  "wf_board (board (run wonGame init)) \<and> (0::int) \<le> 3 \<and> 3 < WIDTH \<and>
   findWinningLine Blue (board (run wonGame init)) \<noteq> None \<and>
   history (fire (Click 3) (run wonGame init)) = ''B0R1B0R1B0R1B0R2B3''"
proof -
  have c1: "(0::int) \<le> 3" and c2: "3 < WIDTH" by (simp_all add: WIDTH_def)
  have e: "0 \<le> (0::int) \<and> 0 < HEIGHT \<and> cellAt (board wonState) 0 3 = Some Empty"
    by (simp add: wonState_click HEIGHT_def)
  from handleMove_gate [OF wonState_click(4) c1 c2] wonState_click(2) e
  have "history (fire (Click 3) wonState) = history wonState @ historyToken Blue 3" by blast
  with wonState_click c1 c2 show ?thesis by (simp add: run_wonGame)
qed

text \<open>
  Claim C1 says that a move on internal column \<open>c\<close> is written as the digit \<open>c + 1\<close>.
  \<^verbatim>\<open>appendHistory\<close> writes \<open>c\<close> itself: a click on column 0 gives the history and the
  request position \<open>B0\<close>, where the claim requires \<open>B1\<close>, and an answer with column 0
  is appended as \<open>R0\<close>.
\<close>

theorem history_sends_internal_column:
  "history (run [Click 0] init) = ''B0'' \<and>
   requests (run [Click 0, AnimationsSettled 0] init) = [\<lparr> position = ''B0'', levelParam = 7 \<rparr>] \<and>
   history (run [Click 6, AnimationsSettled 0, Reply 0 (Success 0)] init) = ''B6R0''"
  by code_simp

text \<open>
  Claim C3 says that the markers of the history alternate from \<open>B\<close> on in every reachable
  state, also after a failed request. After a failed request the blue move stays in the
  history and the next click appends a second \<open>B\<close>: the history and the position sent
  are \<open>B0B1\<close>. A reset while a request is in flight lets the answer start the history
  with \<open>R\<close>.
\<close>

theorem history_after_failed_reply:
  "history (run [Click 0, AnimationsSettled 0, Reply 0 (HttpError ''unavailable''),
                 AnimationsSettled 0, Click 1] init) = ''B0B1'' \<and>
   requests (run [Click 0, AnimationsSettled 0, Reply 0 (HttpError ''unavailable''),
                  AnimationsSettled 0, Click 1, AnimationsSettled 0] init)
     = [\<lparr> position = ''B0'', levelParam = 7 \<rparr>, \<lparr> position = ''B0B1'', levelParam = 7 \<rparr>] \<and>
   history (run [Click 0, AnimationsSettled 0, ResetClick, Reply 0 (Success 3)] init) = ''R3''"
  by code_simp

subsection \<open>Board and history agree\<close>

lemma length_filter_update:
  "i < length xs \<Longrightarrow>
     length (filter P (xs[i := y])) + (if P (xs ! i) then 1 else 0)
       = length (filter P xs) + (if P y then 1 else 0)"
proof (induction xs arbitrary: i)
  case Nil
  then show ?case by simp
next
  case (Cons x xs)
  then show ?case by (cases i) auto
qed

lemma columnFill_setCell:
  assumes "cellAt b r c = Some Empty" and "p \<noteq> Empty"
  shows "columnFill (setCell b r c p) c' = columnFill b c' + (if c' = c then 1 else 0)"
proof -
  from cellAt_Some_bounds [OF assms(1)]
  have bd: "0 \<le> r" "r < int (length b)" "0 \<le> c" "c < int (length (b ! nat r))"
    and e: "b ! nat r ! nat c = Empty" by simp_all
  let ?P = "\<lambda>cells. occupiedAt cells c'"
  let ?new = "(b ! nat r)[nat c := p]"
  from bd have i: "nat r < length b" by simp
  have old: "c' = c \<Longrightarrow> \<not> ?P (b ! nat r)"
    using e by (simp add: occupiedAt_def)
  have new: "?P ?new = (if c' = c then True else ?P (b ! nat r))"
  proof (cases "c' = c")
    case True
    with bd assms(2) show ?thesis by (simp add: occupiedAt_def)
  next
    case False
    show ?thesis
    proof (cases "0 \<le> c'")
      case True
      with False bd have "nat c' \<noteq> nat c" by simp
      with False show ?thesis by (simp add: occupiedAt_def)
    next
      case neg: False
      with False bd show ?thesis by (simp add: occupiedAt_def)
    qed
  qed
  from length_filter_update [OF i, of ?P ?new] old new
  show ?thesis by (auto simp: columnFill_def setCell_def split: if_splits)
qed

lemma columnFill_emptyBoard: "columnFill emptyBoard c = 0"
  by (auto simp: columnFill_def emptyBoard_def occupiedAt_def HEIGHT_def WIDTH_def)

lemma wf_emptyBoard: "wf_board emptyBoard"
  by (simp add: wf_board_def emptyBoard_def list_all_length)

lemma consistent_empty: "consistent emptyBoard []"
proof -
  have "[] = encodeMoves [] \<and> list_all legalMove [] \<and>
        (\<forall>c. columnFill emptyBoard c = movesInColumn [] c)"
    by (simp add: encodeMoves_def movesInColumn_def columnFill_emptyBoard)
  then show ?thesis unfolding consistent_def using wf_emptyBoard by blast
qed

lemma consistent_drop:
  assumes "consistent b h" and "p = Blue \<or> p = Red"
    and "cellAt b r c = Some Empty"
  shows "consistent (setCell b r c p) (h @ historyToken p c)"
proof -
  from assms(1) obtain ms where ms: "wf_board b" "h = encodeMoves ms" "list_all legalMove ms"
    "\<forall>c. columnFill b c = movesInColumn ms c"
    unfolding consistent_def by blast
  from wf_board_cellAt [OF ms(1) assms(3)] have cb: "0 \<le> c \<and> c < WIDTH" by simp
  from assms(2) have pne: "p \<noteq> Empty" by auto
  have 1: "h @ historyToken p c = encodeMoves (ms @ [(p, c)])"
    by (simp add: ms(2) encodeMoves_def)
  have 2: "list_all legalMove (ms @ [(p, c)])"
    using ms(3) assms(2) cb by (simp add: legalMove_def)
  have 3: "\<forall>c'. columnFill (setCell b r c p) c' = movesInColumn (ms @ [(p, c)]) c'"
    using ms(4) by (auto simp: columnFill_setCell [OF assms(3) pne] movesInColumn_def)
  from 1 2 3 wf_board_setCell [OF ms(1)] show ?thesis
    unfolding consistent_def by blast
qed

lemma consistent_dropPiece:
  assumes "consistent b h" and "p = Blue \<or> p = Red" and "dropPiece p c b = (b', r)"
  shows "if r = - 1 then b' = b else consistent b' (h @ historyToken p c)"
proof (cases rule: dropPiece_cases [of p c b])
  case full
  with assms(3) show ?thesis by simp
next
  case (placed k)
  from placed(1) assms(3) have eq: "b' = setCell b k c p \<and> r = k" by auto
  with placed(2) have "r \<noteq> - 1" by simp
  with eq consistent_drop [OF assms(1,2) placed(4)] show ?thesis by simp
qed

lemma resetGame_fields [simp]:
  "board (resetGame s) = emptyBoard"
  "history (resetGame s) = []"
  "level (resetGame s) = level s"
  "requests (resetGame s) = requests s"
  by (simp_all add: resetGame_def)

lemma handleMove_thinking_fields [simp]:
  "board (handleMove_thinking s) = board s"
  "history (handleMove_thinking s) = history s"
  "level (handleMove_thinking s) = level s"
  "requests (handleMove_thinking s) = requests s @ [\<lparr> position = history s, levelParam = level s \<rparr>]"
  by (simp_all add: handleMove_thinking_def aiMove_request_def)

lemma handleMove_finish_fields [simp]:
  "board (handleMove_finish s) = board s"
  "history (handleMove_finish s) = history s"
  "level (handleMove_finish s) = level s"
  "requests (handleMove_finish s) = requests s"
  by (simp_all add: handleMove_finish_def)

lemma handleMove_start_fields:
  "board (fst (handleMove_start c s)) = (if busy s then board s else fst (dropPiece Blue c (board s)))"
  "history (fst (handleMove_start c s)) =
     (if busy s \<or> snd (dropPiece Blue c (board s)) = - 1 then history s
      else history s @ historyToken Blue c)"
  "level (fst (handleMove_start c s)) = level s"
  "requests (fst (handleMove_start c s)) = requests s"
  by (simp_all add: handleMove_start_def Let_def split: prod.splits)

lemma aiMove_response_fields:
  "board (aiMove_response resp s) =
     (case resp of Success k \<Rightarrow> fst (dropPiece Red k (board s)) | _ \<Rightarrow> board s)"
  "history (aiMove_response resp s) =
     (case resp of
        Success k \<Rightarrow> (if snd (dropPiece Red k (board s)) = - 1 then history s
                       else history s @ historyToken Red k)
      | _ \<Rightarrow> history s)"
  "level (aiMove_response resp s) = level s"
  "requests (aiMove_response resp s) = requests s"
  by (simp_all add: aiMove_response_def apiError_def split: Response.splits prod.splits)

lemma fire_Click:
  "fire (Click c) s =
     (if c < 0 \<or> c \<ge> WIDTH then s
      else if snd (handleMove_start c s)
        then (fst (handleMove_start c s))\<lparr> tasks := tasks (fst (handleMove_start c s)) @ [AwaitHumanDrop] \<rparr>
        else fst (handleMove_start c s))"
  by (simp split: prod.splits)

lemma fire_Click_fields:
  "board (fire (Click c) s) =
     (if c < 0 \<or> c \<ge> WIDTH then board s else board (fst (handleMove_start c s)))"
  "history (fire (Click c) s) =
     (if c < 0 \<or> c \<ge> WIDTH then history s else history (fst (handleMove_start c s)))"
  "level (fire (Click c) s) = level s"
  "requests (fire (Click c) s) = requests s"
  by (simp_all add: fire_Click handleMove_start_fields(3,4) del: fire.simps(1))

lemma consistent_after_drop:
  assumes "consistent b h" and "p = Blue \<or> p = Red"
  shows "consistent (fst (dropPiece p c b))
           (if snd (dropPiece p c b) = - 1 then h else h @ historyToken p c)"
proof -
  obtain b' r where d: "dropPiece p c b = (b', r)" by (cases "dropPiece p c b")
  from consistent_dropPiece [OF assms d] assms(1) d show ?thesis
    by (auto split: if_splits)
qed

lemma fire_consistent:
  assumes "consistent (board s) (history s)"
  shows "consistent (board (fire e s)) (history (fire e s))"
proof (cases e)
  case (Click c)
  show ?thesis
  proof (cases "c < 0 \<or> c \<ge> WIDTH \<or> busy s")
    case True
    with assms Click show ?thesis
      by (auto simp: fire_Click_fields handleMove_start_fields simp del: fire.simps(1))
  next
    case False
    with Click consistent_after_drop [OF assms, of Blue c] show ?thesis
      by (simp add: fire_Click_fields handleMove_start_fields del: fire.simps(1))
  qed
next
  case (LevelInput v)
  with assms show ?thesis by simp
next
  case ResetClick
  then show ?thesis by (simp add: consistent_empty)
next
  case (AnimationsSettled i)
  with assms show ?thesis by (simp split: Task.splits)
next
  case (Reply i resp)
  show ?thesis
  proof (cases "i < length (tasks s) \<and> tasks s ! i = AwaitReply")
    case False
    with assms Reply show ?thesis by auto
  next
    case True
    show ?thesis
    proof (cases resp)
      case (Success k)
      with True Reply consistent_after_drop [OF assms, of Red k] show ?thesis
        by (simp add: aiMove_response_fields)
    qed (use True Reply assms in \<open>simp_all add: aiMove_response_fields\<close>)
  qed
qed

lemma run_consistent:
  "consistent (board s) (history s) \<Longrightarrow> consistent (board (run es s)) (history (run es s))"
  by (induction es arbitrary: s) (simp_all add: fire_consistent)

lemma init_consistent: "consistent (board init) (history init)"
  by (simp add: init_def consistent_empty)

text \<open>
  The token string determines the moves: two lists of moves by Blue and Red on columns of
  the grid with the same token string are the same list.
\<close>

lemma digitChar_inject:
  assumes "n < 10" and "m < 10" and "digitChar n = digitChar m"
  shows "n = m"
proof -
  have d: "distinct ''0123456789''" by simp
  have l: "length ''0123456789'' = 10" by simp
  from assms l show ?thesis
    unfolding digitChar_def using nth_eq_iff_index_eq [OF d, of n m] by simp
qed

lemma digitChar_not_marker:
  "n < 10 \<Longrightarrow> digitChar n \<noteq> CHR ''B'' \<and> digitChar n \<noteq> CHR ''R''"
proof -
  assume "n < 10"
  then have "digitChar n \<in> set ''0123456789''"
    unfolding digitChar_def by (intro nth_mem) simp
  then show ?thesis by auto
qed

lemma historyToken_legal:
  assumes "legalMove (p, c)"
  shows "historyToken p c = [if p = Blue then CHR ''B'' else CHR ''R'', digitChar (nat c)]"
proof -
  from assms have "0 \<le> c" "nat c < 10" by (auto simp: legalMove_def WIDTH_def)
  then show ?thesis
    by (simp add: historyToken_def playerCode_def numToString_def natToString.simps [of "nat c"])
qed

lemma historyToken_inject:
  assumes "legalMove (p, c)" and "legalMove (p', c')"
    and "historyToken p c = historyToken p' c'"
  shows "p = p' \<and> c = c'"
proof -
  from assms(1,2) have b: "0 \<le> c" "nat c < 10" "0 \<le> c'" "nat c' < 10"
    and pl: "p = Blue \<or> p = Red" "p' = Blue \<or> p' = Red"
    by (auto simp: legalMove_def WIDTH_def)
  from assms(3) have "(if p = Blue then CHR ''B'' else CHR ''R'')
        = (if p' = Blue then CHR ''B'' else CHR ''R'')"
    and dg: "digitChar (nat c) = digitChar (nat c')"
    by (simp_all add: historyToken_legal [OF assms(1)] historyToken_legal [OF assms(2)])
  with pl have "p = p'" by (auto split: if_splits)
  moreover from digitChar_inject [OF b(2) b(4) dg] b(1,3) have "c = c'" by simp
  ultimately show ?thesis by simp
qed

lemma encodeMoves_inject:
  "list_all legalMove ms \<Longrightarrow> list_all legalMove ms' \<Longrightarrow> encodeMoves ms = encodeMoves ms'
     \<Longrightarrow> ms = ms'"
proof (induction ms arbitrary: ms')
  case Nil
  show ?case
  proof (cases ms')
    case Nil
    then show ?thesis by simp
  next
    case (Cons m rest)
    obtain p c where m: "m = (p, c)" by (cases m)
    with Cons Nil.prems(2) have "legalMove (p, c)" by simp
    from historyToken_legal [OF this] Nil.prems(3) Cons m show ?thesis
      by (simp add: encodeMoves_def)
  qed
next
  case (Cons m ms)
  obtain p c where m: "m = (p, c)" by (cases m)
  with Cons.prems(1) have lm: "legalMove (p, c)" and lms: "list_all legalMove ms" by simp_all
  show ?case
  proof (cases ms')
    case Nil
    with historyToken_legal [OF lm] Cons.prems(3) m show ?thesis
      by (simp add: encodeMoves_def)
  next
    case (Cons m' rest)
    obtain p' c' where m': "m' = (p', c')" by (cases m')
    with Cons Cons.prems(2) have lm': "legalMove (p', c')" and lrest: "list_all legalMove rest"
      by simp_all
    from Cons.prems(3) Cons m m'
    have "historyToken p c @ encodeMoves ms = historyToken p' c' @ encodeMoves rest"
      by (simp add: encodeMoves_def)
    then have t: "historyToken p c = historyToken p' c'" and r: "encodeMoves ms = encodeMoves rest"
      by (simp_all add: historyToken_legal [OF lm] historyToken_legal [OF lm'])
    from historyToken_inject [OF lm lm' t] Cons.IH [OF lms lrest r] m m' Cons
    show ?thesis by simp
  qed
qed

text \<open>
  Claim C6. In every state the page reaches from its initial state, by any sequence of
  events, the history is the token string of a list of moves by Blue and Red on columns
  of the grid, and for every such reading of the history every column of the board holds
  exactly as many pieces as the list has moves on that column.
\<close>

theorem board_fill_matches_history:
  "wf_board (board (run es init)) \<and>
   (\<exists>ms. list_all legalMove ms \<and> history (run es init) = encodeMoves ms) \<and>
   (\<forall>ms. list_all legalMove ms \<and> history (run es init) = encodeMoves ms \<longrightarrow>
      (\<forall>c. columnFill (board (run es init)) c = movesInColumn ms c))"
proof -
  from run_consistent [OF init_consistent, of es] obtain ms where
    w: "wf_board (board (run es init))" and
    ms: "history (run es init) = encodeMoves ms" "list_all legalMove ms"
      "\<forall>c. columnFill (board (run es init)) c = movesInColumn ms c"
    unfolding consistent_def by blast
  have "\<forall>ms'. list_all legalMove ms' \<and> history (run es init) = encodeMoves ms' \<longrightarrow>
      (\<forall>c. columnFill (board (run es init)) c = movesInColumn ms' c)"
  proof (intro allI impI)
    fix ms' c
    assume a: "list_all legalMove ms' \<and> history (run es init) = encodeMoves ms'"
    with ms(1) have "encodeMoves ms = encodeMoves ms'" by simp
    from encodeMoves_inject [OF ms(2) _ this] a have "ms = ms'" by simp
    with ms(3) show "columnFill (board (run es init)) c = movesInColumn ms' c" by simp
  qed
  with w ms(1,2) show ?thesis by blast
qed

theorem board_fill_matches_history_witness:
  "list_all legalMove [(Blue, 3), (Red, 3)] \<and>
   history (run [Click 3, AnimationsSettled 0, Reply 0 (Success 3)] init)
     = encodeMoves [(Blue, 3), (Red, 3)] \<and>
   columnFill (board (run [Click 3, AnimationsSettled 0, Reply 0 (Success 3)] init)) 3 = 2"
proof -
  let ?s = "run [Click 3, AnimationsSettled 0, Reply 0 (Success 3)] init"
  have l: "list_all legalMove [(Blue, 3), (Red, 3)]" by code_simp
  have h: "history ?s = encodeMoves [(Blue, 3), (Red, 3)]" by code_simp
  have m: "movesInColumn [(Blue, 3), (Red, 3)] 3 = 2" by code_simp
  from board_fill_matches_history [of "[Click 3, AnimationsSettled 0, Reply 0 (Success 3)]"] l h
  have "columnFill (board ?s) 3 = movesInColumn [(Blue, 3), (Red, 3)] 3" by blast
  with l h m show ?thesis by simp
qed

lemma fire_level:
  assumes "sliderEvent e" and "1 \<le> level s \<and> level s \<le> 15"
  shows "1 \<le> level (fire e s) \<and> level (fire e s) \<le> 15"
  using assms
  by (cases e)
     (auto simp: fire_Click_fields aiMove_response_fields simp del: fire.simps(1)
           split: Task.splits)

lemma fire_requests:
  assumes "1 \<le> level s \<and> level s \<le> 15"
    and "\<forall>q\<in>set (requests s). 1 \<le> levelParam q \<and> levelParam q \<le> 15"
  shows "\<forall>q\<in>set (requests (fire e s)). 1 \<le> levelParam q \<and> levelParam q \<le> 15"
  using assms
  by (cases e)
     (auto simp: fire_Click_fields aiMove_response_fields simp del: fire.simps(1)
           split: Task.splits)

lemma run_level:
  assumes "list_all sliderEvent es" and "1 \<le> level s \<and> level s \<le> 15"
    and "\<forall>q\<in>set (requests s). 1 \<le> levelParam q \<and> levelParam q \<le> 15"
  shows "(1 \<le> level (run es s) \<and> level (run es s) \<le> 15) \<and>
         (\<forall>q\<in>set (requests (run es s)). 1 \<le> levelParam q \<and> levelParam q \<le> 15)"
  using assms
proof (induction es arbitrary: s)
  case Nil
  then show ?case by simp
next
  case (Cons e es)
  from Cons.prems(1) have e: "sliderEvent e" and es: "list_all sliderEvent es" by simp_all
  from Cons.IH [OF es fire_level [OF e Cons.prems(2)] fire_requests [OF Cons.prems(2,3)]]
  show ?case by simp
qed

text \<open>
  Claim C8. When every input event of the slider carries a value from 1 to 15, as its
  declared range makes it, \<open>level\<close> starts at 7 and stays in \<open>[1, 15]\<close>, and the level
  of every request issued lies in \<open>[1, 15]\<close>.
\<close>

theorem request_level_in_range:
  assumes "list_all sliderEvent es"
  shows "1 \<le> level (run es init) \<and> level (run es init) \<le> 15 \<and>
         (\<forall>q\<in>set (requests (run es init)). 1 \<le> levelParam q \<and> levelParam q \<le> 15)"
  using run_level [OF assms, of init] by (simp add: init_def)

theorem request_level_in_range_witness:
  "list_all sliderEvent [LevelInput 15, Click 3, AnimationsSettled 0] \<and>
   requests (run [LevelInput 15, Click 3, AnimationsSettled 0] init)
     = [\<lparr> position = ''B3'', levelParam = 15 \<rparr>] \<and>
   1 \<le> level (run [LevelInput 15, Click 3, AnimationsSettled 0] init) \<and>
   level (run [LevelInput 15, Click 3, AnimationsSettled 0] init) \<le> 15"
proof -
  have a: "list_all sliderEvent [LevelInput 15, Click 3, AnimationsSettled 0]" by simp
  have r: "requests (run [LevelInput 15, Click 3, AnimationsSettled 0] init)
     = [\<lparr> position = ''B3'', levelParam = 15 \<rparr>]" by code_simp
  from request_level_in_range [OF a] a r show ?thesis by simp
qed

end
